theory Spec2Isabelle
  imports Complex_Main
begin

section \<open>Python values used by tools/compression\_bench.py\<close>

text \<open>
  A Python \<open>bytes\<close> or \<open>bytearray\<close> value is a list of 8-bit characters, Python's unbounded
  \<open>int\<close> is \<open>int\<close>. A value of \<open>float\<close> is read as the rational number it stands for; the
  only float tests of the program compare against \<open>0\<close> and \<open>0.5\<close>.
\<close>

type_synonym bytes = "char list"

text \<open>
  Slicing \<open>xs[lo:hi]\<close> with step 1: a negative bound counts from the end, and both bounds
  are clamped to the length, so a slice never raises.
\<close>

definition py_index :: "nat \<Rightarrow> int \<Rightarrow> nat" where
  "py_index n i = (if i < 0 then nat (max (i + int n) 0) else min (nat i) n)"

definition py_slice :: "'a list \<Rightarrow> int \<Rightarrow> int \<Rightarrow> 'a list" where
  "py_slice xs lo hi =
     (let l = py_index (length xs) lo; h = py_index (length xs) hi
      in take (h - l) (drop l xs))"

text \<open>\<open>xs[:n]\<close>\<close>

definition py_prefix :: "'a list \<Rightarrow> int \<Rightarrow> 'a list" where
  "py_prefix xs n = py_slice xs 0 n"

text \<open>\<open>b" " * n\<close>: a count below one gives the empty sequence.\<close>

definition py_repeat :: "'a \<Rightarrow> int \<Rightarrow> 'a list" where
  "py_repeat c n = replicate (nat n) c"

text \<open>\<open>str(n)\<close> for an integer, as the f-string of the editor generator formats it.\<close>

fun str_nat :: "nat \<Rightarrow> string" where
  "str_nat n =
     (if n < 10 then [''0123456789'' ! n]
      else str_nat (n div 10) @ [''0123456789'' ! (n mod 10)])"

definition str_int :: "int \<Rightarrow> string" where
  "str_int i = (if i < 0 then CHR ''-'' # str_nat (nat (- i)) else str_nat (nat i))"


section \<open>The random module\<close>

text \<open>
  The standard library's generator is not part of the repository. It is a parameter: a state
  type \<open>'g\<close> (the module's hidden global state), the state \<open>random.seed(n)\<close> installs, a
  source of raw integers and a source of floats for \<open>random.random()\<close>. The derived
  operations keep the library's contracts: \<open>randint(a, b)\<close> lies in \<open>[a, b]\<close>, \<open>choice\<close>
  returns an element of a non-empty sequence, \<open>choices(xs, k=k)\<close> returns \<open>k\<close> elements.
\<close>

record 'g rng =
  rng_seed :: "int \<Rightarrow> 'g"
  rng_bits :: "'g \<Rightarrow> nat \<times> 'g"
  rng_random :: "'g \<Rightarrow> rat \<times> 'g"

definition randint :: "'g rng \<Rightarrow> int \<Rightarrow> int \<Rightarrow> 'g \<Rightarrow> int \<times> 'g" where
  "randint R a b g = (case rng_bits R g of (r, g') \<Rightarrow> (a + int r mod (b - a + 1), g'))"

definition choice :: "'g rng \<Rightarrow> 'a list \<Rightarrow> 'g \<Rightarrow> 'a \<times> 'g" where
  "choice R xs g = (case rng_bits R g of (r, g') \<Rightarrow> (xs ! (r mod length xs), g'))"

fun choices :: "'g rng \<Rightarrow> 'a list \<Rightarrow> nat \<Rightarrow> 'g \<Rightarrow> 'a list \<times> 'g" where
  "choices R xs 0 g = ([], g)"
| "choices R xs (Suc k) g =
     (case choice R xs g of (x, g') \<Rightarrow>
        (case choices R xs k g' of (ys, g'') \<Rightarrow> (x # ys, g'')))"

text \<open>\<open>string.printable.encode()\<close>: digits, letters, punctuation, whitespace.\<close>

definition printable :: bytes where
  "printable =
     ''0123456789'' @ ''abcdefghijklmnopqrstuvwxyz'' @ ''ABCDEFGHIJKLMNOPQRSTUVWXYZ'' @
     [CHR ''!'', CHR 0x22, CHR ''#'', CHR ''$'', CHR ''%'', CHR ''&'', CHR 0x27, CHR ''('',
      CHR '')'', CHR ''*'', CHR ''+'', CHR '','', CHR ''-'', CHR ''.'', CHR ''/'', CHR '':'',
      CHR '';'', CHR ''<'', CHR ''='', CHR ''>'', CHR ''?'', CHR ''@'', CHR ''['', CHR 0x5C,
      CHR '']'', CHR ''^'', CHR ''_'', CHR 0x60, CHR ''{'', CHR ''|'', CHR ''}'', CHR ''~''] @
     [CHR '' '', CHR 0x09, CHR 0x0A, CHR 0x0D, CHR 0x0B, CHR 0x0C]"


section \<open>Synthetic data generators\<close>

definition ESC :: char where
  "ESC = CHR 0x1B"

definition escapes :: "bytes list" where
  "escapes =
     [ESC # ''[0m'', ESC # ''[1m'', ESC # ''[32m'', ESC # ''[31m'', ESC # ''[0;32m'',
      ESC # ''[1;33m'', ESC # ''[38;5;208m'', ESC # ''[K'', ESC # ''[2J'', ESC # ''[H'',
      ESC # ''[?25h'', ESC # ''[?25l'']"

definition patterns :: "bytes list" where
  "patterns =
     [''drwxr-xr-x'', ''-rw-r--r--'', ''total '', ''user@host:'', ''$ '', ''>>> '', ''... '',
      ''error: '', ''warning: '', ''  adding: '', ''Compiling '', ''   Linking '']"

text \<open>
  One pass through the body of the loop of \<open>generate_terminal_data\<close>: the bytes appended
  to \<open>data\<close> and the generator state afterwards.
\<close>

definition terminal_step :: "'g rng \<Rightarrow> 'g \<Rightarrow> bytes \<times> 'g" where
  "terminal_step R g =
     (case randint R 0 10 g of (c, g1) \<Rightarrow>
        if c \<le> 2 then choice R escapes g1
        else if c \<le> 4 then
          (case randint R 1 40 g1 of (n, g2) \<Rightarrow> (py_repeat CHR '' '' n, g2))
        else if c = 5 then
          (case rng_random R g1 of (x, g2) \<Rightarrow>
             ((if x > 1 / 2 then [CHR 0x0D] else []) @ [CHR 0x0A], g2))
        else if c \<le> 7 then choice R patterns g1
        else if c \<le> 9 then
          (case randint R 10 80 g1 of (k, g2) \<Rightarrow> choices R printable (nat k) g2)
        else ([CHR 0x00], g1))"

lemma choice_mem: "xs \<noteq> [] \<Longrightarrow> fst (choice R xs g) \<in> set xs"
  by (simp add: choice_def split: prod.split)

lemma randint_range: "a \<le> b \<Longrightarrow> a \<le> fst (randint R a b g) \<and> fst (randint R a b g) \<le> b"
proof -
  assume ab: "a \<le> b"
  obtain r g' where d: "rng_bits R g = (r, g')" by (cases "rng_bits R g")
  have pos: "0 < b - a + 1" using ab by simp
  have "0 \<le> int r mod (b - a + 1)" using pos by (rule pos_mod_sign)
  moreover have "int r mod (b - a + 1) < b - a + 1" using pos by (rule pos_mod_bound)
  ultimately show ?thesis by (simp add: randint_def d)
qed

lemma length_choices: "length (fst (choices R xs k g)) = k"
proof (induction k arbitrary: g)
  case 0
  show ?case by simp
next
  case (Suc k)
  obtain x g' where c: "choice R xs g = (x, g')" by (cases "choice R xs g")
  obtain ys g'' where r: "choices R xs k g' = (ys, g'')" by (cases "choices R xs k g'")
  have "length ys = k" using Suc.IH [of g'] by (simp add: r)
  then show ?case by (simp add: c r)
qed

lemma terminal_step_nonempty: "fst (terminal_step R g) \<noteq> []"
proof -
  obtain c g1 where c: "randint R 0 10 g = (c, g1)" by (cases "randint R 0 10 g")
  have e: "fst (choice R escapes g1) \<noteq> []"
    using choice_mem [of escapes R g1] by (auto simp: escapes_def)
  have p: "fst (choice R patterns g1) \<noteq> []"
    using choice_mem [of patterns R g1] by (auto simp: patterns_def)
  have s: "fst (case randint R 1 40 g1 of (n, g2) \<Rightarrow> (py_repeat CHR '' '' n, g2)) \<noteq> []"
    using randint_range [of 1 40 R g1] by (auto simp: py_repeat_def split: prod.split)
  have k: "fst (case randint R 10 80 g1 of (k, g2) \<Rightarrow> choices R printable (nat k) g2) \<noteq> []"
  proof -
    obtain k g2 where r: "randint R 10 80 g1 = (k, g2)" by (cases "randint R 10 80 g1")
    have "10 \<le> k" using randint_range [of 10 80 R g1] by (simp add: r)
    then have "length (fst (choices R printable (nat k) g2)) \<noteq> 0"
      by (simp add: length_choices)
    then show ?thesis by (simp add: r)
  qed
  show ?thesis
    using e p s k by (simp add: terminal_step_def c split: prod.split)
qed

function terminal_loop :: "'g rng \<Rightarrow> int \<Rightarrow> bytes \<Rightarrow> 'g \<Rightarrow> bytes \<times> 'g" where
  "terminal_loop R sz data g =
     (if int (length data) < sz
      then (case terminal_step R g of (bs, g') \<Rightarrow> terminal_loop R sz (data @ bs) g')
      else (data, g))"
  by pat_completeness auto
termination
proof (relation "measure (\<lambda>(R, sz, data, g). nat (sz - int (length data)))", goal_cases)
  case 1
  show ?case by simp
next
  case (2 R sz data g bs g')
  have "bs \<noteq> []" using terminal_step_nonempty [of R g] 2 by (metis fst_conv)
  then show ?case using 2 by simp
qed

declare terminal_loop.simps [simp del]

text \<open>
  \<open>generate_terminal_data(size)\<close>, with \<open>sz\<close> for \<open>size\<close>. The module's generator state
  before the call is \<open>g0\<close>; the call overwrites it with \<open>random.seed(12345)\<close>. The result is the returned bytes and
  the state the call leaves behind.
\<close>

definition generate_terminal_data :: "'g rng \<Rightarrow> int \<Rightarrow> 'g \<Rightarrow> bytes \<times> 'g" where
  "generate_terminal_data R sz g0 =
     (case terminal_loop R sz [] (rng_seed R 12345) of
        (data, g) \<Rightarrow> (py_prefix data sz, g))"

text \<open>
  The editor generator: the loop state is \<open>(data, line, col)\<close>, one pass through the body is
  \<open>editor_step\<close>.
\<close>

type_synonym editor_state = "bytes \<times> int \<times> int"

definition content :: bytes where
  "content = ''const foo = 123;''"

definition cursor_seq :: "int \<Rightarrow> int \<Rightarrow> bytes" where
  "cursor_seq line col = ESC # ''['' @ str_int line @ '';'' @ str_int col @ ''H''"

definition editor_step :: "editor_state \<Rightarrow> editor_state" where
  "editor_step s =
     (case s of (data, line, col) \<Rightarrow>
        (data @ cursor_seq line col @ content, line mod 50 + 1, col mod 80 + 1))"

lemma length_editor_step: "length (fst (editor_step s)) \<ge> length (fst s) + 16"
  by (simp add: editor_step_def content_def split: prod.split)

function editor_loop :: "int \<Rightarrow> editor_state \<Rightarrow> editor_state" where
  "editor_loop sz s =
     (if int (length (fst s)) + 20 < sz then editor_loop sz (editor_step s) else s)"
  by pat_completeness auto
termination
proof (relation "measure (\<lambda>(sz, s). nat (sz - int (length (fst s))))", goal_cases)
  case 1
  show ?case by simp
next
  case (2 sz s)
  then show ?case using length_editor_step [of s] by simp
qed

declare editor_loop.simps [simp del]

definition generate_editor_data :: "int \<Rightarrow> bytes" where
  "generate_editor_data sz =
     (case editor_loop sz ([], 1, 1) of
        (data, line, col) \<Rightarrow>
          py_prefix (data @ py_repeat CHR '' '' (sz - int (length data))) sz)"


text \<open>
  The states \<open>(data, line, col)\<close> in which the loop of the editor generator tests its
  condition, for a requested size \<open>sz\<close>: the initial one, and the one after each pass the
  condition lets through. The pass from such a state emits \<open>cursor_seq line col\<close>.
\<close>

inductive editor_reach :: "int \<Rightarrow> bytes \<Rightarrow> int \<Rightarrow> int \<Rightarrow> bool" for sz :: int where
  start: "editor_reach sz [] 1 1"
| pass: "editor_reach sz data line col \<Longrightarrow> int (length data) + 20 < sz \<Longrightarrow>
     editor_step (data, line, col) = (data', line', col') \<Longrightarrow> editor_reach sz data' line' col'"

code_pred editor_reach .

text \<open>
  Lines 198 and 199 of \<open>main\<close>: both buffers for one data size, generated one after the
  other from the generator state \<open>g\<close> the module has at that moment.
\<close>

definition generate_inputs :: "'g rng \<Rightarrow> int \<Rightarrow> 'g \<Rightarrow> (bytes \<times> bytes) \<times> 'g" where
  "generate_inputs R sz g =
     (case generate_terminal_data R sz g of
        (terminal_data, g') \<Rightarrow> ((terminal_data, generate_editor_data sz), g'))"

text \<open>A small linear congruential generator, to run the generators on concrete inputs.\<close>

definition lcg :: "nat rng" where
  "lcg = \<lparr>rng_seed = (\<lambda>n. nat n),
          rng_bits = (\<lambda>g. (g div 65536, (g * 1103515245 + 12345) mod 2147483648)),
          rng_random = (\<lambda>g. (of_nat (g mod 1000) / 1000, (g * 1103515245 + 12345) mod 2147483648))\<rparr>"


section \<open>Compression functions\<close>

text \<open>
  The compressors (\<open>zlib\<close>, \<open>lzma\<close>, \<open>zstandard\<close>) and the clock are library code. Each
  compressor is a function from its input (and level) to its output bytes; the clock has a
  state \<open>'c\<close> and \<open>time.perf_counter_ns()\<close> returns a reading and the next state.
\<close>

record 'c lib =
  zlib_compress :: "bytes \<Rightarrow> int \<Rightarrow> bytes"
  lzma_compress :: "bytes \<Rightarrow> bytes"
  zstd_compress :: "int \<Rightarrow> bytes \<Rightarrow> bytes"
  perf_counter_ns :: "'c \<Rightarrow> int \<times> 'c"

definition compress_streaming_zlib ::
  "'c lib \<Rightarrow> bytes \<Rightarrow> int \<Rightarrow> 'c \<Rightarrow> (int \<times> int) \<times> 'c" where
  "compress_streaming_zlib L data level c =
     (case perf_counter_ns L c of (start, c1) \<Rightarrow>
        let compressed = zlib_compress L data level in
        (case perf_counter_ns L c1 of (stop, c2) \<Rightarrow>
           ((int (length compressed), stop - start), c2)))"

text \<open>
  The loop of \<open>compress_per_frame_zlib\<close> and of \<open>compress_per_frame_zstd\<close>; the two differ
  in the compressor they call on a chunk, the argument \<open>compress\<close>. With a frame size below one
  and a non-empty buffer the source loop never ends, so the loop is a partial function and
  \<open>None\<close> stands for not returning. The last argument is not in the source: it records
  the offset and the chunk of every pass, so that what the loop reads can be stated.
\<close>

partial_function (option) per_frame_loop ::
  "(bytes \<Rightarrow> bytes) \<Rightarrow> bytes \<Rightarrow> int \<Rightarrow> int \<Rightarrow> int \<Rightarrow> (int \<times> bytes) list
     \<Rightarrow> (int \<times> (int \<times> bytes) list) option" where
  "per_frame_loop compress data frame_size offset tot visited =
     (if offset < int (length data)
      then (let chunk = py_slice data offset (offset + frame_size);
                compressed = compress chunk
            in per_frame_loop compress data frame_size (offset + frame_size)
                 (tot + (4 + int (length compressed))) (visited @ [(offset, chunk)]))
      else Some (tot, visited))"

definition compress_per_frame_zlib ::
  "'c lib \<Rightarrow> bytes \<Rightarrow> int \<Rightarrow> int \<Rightarrow> 'c \<Rightarrow> ((int \<times> int) \<times> 'c) option" where
  "compress_per_frame_zlib L data frame_size level c =
     (case perf_counter_ns L c of (start, c1) \<Rightarrow>
        (case per_frame_loop (\<lambda>chunk. zlib_compress L chunk level) data frame_size 0 0 [] of
           None \<Rightarrow> None
         | Some (tot, visited) \<Rightarrow>
             (case perf_counter_ns L c1 of (stop, c2) \<Rightarrow> Some ((tot, stop - start), c2))))"

definition compress_streaming_lzma :: "'c lib \<Rightarrow> bytes \<Rightarrow> 'c \<Rightarrow> (int \<times> int) \<times> 'c" where
  "compress_streaming_lzma L data c =
     (case perf_counter_ns L c of (start, c1) \<Rightarrow>
        let compressed = lzma_compress L data in
        (case perf_counter_ns L c1 of (stop, c2) \<Rightarrow>
           ((int (length compressed), stop - start), c2)))"

text \<open>The zstd functions read the module-level flag \<open>HAS_ZSTD\<close>, here \<open>has_zstd\<close>.\<close>

definition compress_streaming_zstd ::
  "'c lib \<Rightarrow> bool \<Rightarrow> bytes \<Rightarrow> int \<Rightarrow> 'c \<Rightarrow> (int \<times> int) \<times> 'c" where
  "compress_streaming_zstd L has_zstd data level c =
     (if \<not> has_zstd then ((0, 0), c)
      else (case perf_counter_ns L c of (start, c1) \<Rightarrow>
        let compressed = zstd_compress L level data in
        (case perf_counter_ns L c1 of (stop, c2) \<Rightarrow>
           ((int (length compressed), stop - start), c2))))"

definition compress_per_frame_zstd ::
  "'c lib \<Rightarrow> bool \<Rightarrow> bytes \<Rightarrow> int \<Rightarrow> int \<Rightarrow> 'c \<Rightarrow> ((int \<times> int) \<times> 'c) option" where
  "compress_per_frame_zstd L has_zstd data frame_size level c =
     (if \<not> has_zstd then Some ((0, 0), c)
      else (case perf_counter_ns L c of (start, c1) \<Rightarrow>
        (case per_frame_loop (zstd_compress L level) data frame_size 0 0 [] of
           None \<Rightarrow> None
         | Some (tot, visited) \<Rightarrow>
             (case perf_counter_ns L c1 of (stop, c2) \<Rightarrow> Some ((tot, stop - start), c2)))))"

text \<open>
  A toy library for concrete runs: every compressor keeps its input and puts one byte in
  front, the clock advances by 1000 ns at each reading.
\<close>

definition toy_lib :: "int lib" where
  "toy_lib = \<lparr>zlib_compress = (\<lambda>d level. CHR ''z'' # d),
              lzma_compress = (\<lambda>d. CHR ''l'' # d),
              zstd_compress = (\<lambda>level d. CHR ''s'' # d),
              perf_counter_ns = (\<lambda>c. (c, c + 1000))\<rparr>"


section \<open>Module start-up and the benchmark matrix\<close>

datatype py_error = ImportError | ZeroDivisionError | OtherError

text \<open>
  Lines 21 to 27. \<open>import zstandard\<close> either succeeds or raises; the \<open>try\<close> statement
  catches \<open>ImportError\<close> only. The result is \<open>HAS_ZSTD\<close> and the arguments of the
  \<open>print\<close> calls made, in order; \<open>print\<close> writes its argument and a newline.
\<close>

definition load_module :: "py_error option \<Rightarrow> py_error + (bool \<times> string list)" where
  "load_module import_raises =
     (case import_raises of
        None \<Rightarrow> Inr (True, [])
      | Some ImportError \<Rightarrow>
          Inr (False, [''Note: zstd not available, skipping zstd tests'',
                       ''Install with: pip install zstandard'' @ [CHR 0x0A]])
      | Some e \<Rightarrow> Inl e)"

definition stdout_text :: "string list \<Rightarrow> string" where
  "stdout_text prints = concat (map (\<lambda>s. s @ [CHR 0x0A]) prints)"

definition line_count :: "string \<Rightarrow> nat" where
  "line_count out = length (filter (\<lambda>ch. ch = CHR 0x0A) out)"

text \<open>The two lists at the head of \<open>main\<close> (lines 190 and 191).\<close>

definition test_sizes :: "int list" where
  "test_sizes = [1024, 4096, 16384, 65536]"

definition frame_sizes :: "int list" where
  "frame_sizes = [256, 512, 1024, 2048, 4096]"

text \<open>
  One table row of \<open>main\<close> is one call of a compression function: the strategy and its
  parameters (frame size, level).
\<close>

datatype strategy =
    Zlib_streaming int
  | Zlib_frame int int
  | Lzma_streaming
  | Zstd_streaming int
  | Zstd_frame int int

text \<open>
  Lines 206 to 244: the calls made for one buffer of the requested size \<open>sz\<close>, in order.
  \<open>continue\<close> skips a frame size.
\<close>

definition strategies :: "bool \<Rightarrow> int \<Rightarrow> strategy list" where
  "strategies has_zstd sz =
     map Zlib_streaming [1, 6, 9] @
     concat (map (\<lambda>frame. if frame > sz then [] else map (Zlib_frame frame) [1, 6])
               [512, 1024, 2048]) @
     (if sz \<le> 16384 then [Lzma_streaming] else []) @
     (if has_zstd
      then map Zstd_streaming [1, 3, 9] @
           concat (map (\<lambda>frame. if frame > sz then [] else [Zstd_frame frame 3]) [1024, 2048])
      else [])"

text \<open>The call behind a row: the compressed size, the elapsed time, the clock afterwards.\<close>

fun run_strategy ::
  "'c lib \<Rightarrow> bool \<Rightarrow> bytes \<Rightarrow> strategy \<Rightarrow> 'c \<Rightarrow> ((int \<times> int) \<times> 'c) option" where
  "run_strategy L hz data (Zlib_streaming level) c = Some (compress_streaming_zlib L data level c)"
| "run_strategy L hz data (Zlib_frame frame level) c = compress_per_frame_zlib L data frame level c"
| "run_strategy L hz data Lzma_streaming c = Some (compress_streaming_lzma L data c)"
| "run_strategy L hz data (Zstd_streaming level) c =
     Some (compress_streaming_zstd L hz data level c)"
| "run_strategy L hz data (Zstd_frame frame level) c =
     compress_per_frame_zstd L hz data frame level c"

text \<open>
  The loops of \<open>main\<close> over \<open>test_sizes\<close> and the two buffers: every row of a run, as
  (data size, buffer name, strategy).
\<close>

definition main_cells :: "bool \<Rightarrow> (int \<times> string \<times> strategy) list" where
  "main_cells has_zstd =
     concat (map (\<lambda>sz.
       concat (map (\<lambda>name. map (\<lambda>s. (sz, name, s)) (strategies has_zstd sz))
                 [''Terminal (mixed)'', ''Editor (cursor)'']))
       test_sizes)"

definition is_zstd :: "strategy \<Rightarrow> bool" where
  "is_zstd s = (case s of Zstd_streaming level \<Rightarrow> True | Zstd_frame f level \<Rightarrow> True | _ \<Rightarrow> False)"


section \<open>Metrics\<close>

text \<open>Python's \<open>/\<close> raises \<open>ZeroDivisionError\<close> on a zero divisor.\<close>

definition truediv :: "rat \<Rightarrow> rat \<Rightarrow> py_error + rat" where
  "truediv a b = (if b = 0 then Inl ZeroDivisionError else Inr (a / b))"

definition and_then :: "py_error + 'a \<Rightarrow> ('a \<Rightarrow> py_error + 'b) \<Rightarrow> py_error + 'b" where
  "and_then r f = (case r of Inl e \<Rightarrow> Inl e | Inr v \<Rightarrow> f v)"

record Result =
  name :: string
  original :: int
  compressed :: int
  time_ns :: int

definition ratio :: "Result \<Rightarrow> py_error + rat" where
  "ratio r =
     and_then (truediv (of_int (compressed r)) (of_int (original r))) (\<lambda>q. Inr (q * 100))"






section \<open>The generators return exactly the requested number of bytes\<close>

lemma py_prefix_length:
  "0 \<le> n \<Longrightarrow> n \<le> int (length xs) \<Longrightarrow> int (length (py_prefix xs n)) = n"
  by (simp add: py_prefix_def py_slice_def py_index_def Let_def)

lemma terminal_loop_length: "sz \<le> int (length (fst (terminal_loop R sz data g)))"
proof (induction R sz data g rule: terminal_loop.induct)
  case (1 R sz data g)
  show ?case
  proof (cases "int (length data) < sz")
    case True
    obtain bs g' where s: "terminal_step R g = (bs, g')" by (cases "terminal_step R g")
    show ?thesis
      using True 1 [OF True s [symmetric]] s by (simp add: terminal_loop.simps [of R sz data g])
  next
    case False
    then show ?thesis by (simp add: terminal_loop.simps [of R sz data g])
  qed
qed

text \<open>
  Claim C1. For every size \<open>sz \<ge> 0\<close>, whatever the random generator and its state,
  \<open>generate_terminal_data(sz)\<close> and \<open>generate_editor_data(sz)\<close> return exactly \<open>sz\<close> bytes.
  Both loops are total functions (their termination is proved where they are defined), so
  this covers the sizes smaller than one escape sequence or one generation unit.
\<close>

theorem generators_exact_length:
  "0 \<le> sz \<Longrightarrow>
     int (length (fst (generate_terminal_data R sz g0))) = sz \<and>
     int (length (generate_editor_data sz)) = sz"
proof -
  assume nn: "0 \<le> sz"
  obtain data g where t: "terminal_loop R sz [] (rng_seed R 12345) = (data, g)"
    by (cases "terminal_loop R sz [] (rng_seed R 12345)")
  have "sz \<le> int (length data)"
    using terminal_loop_length [of sz R "[]" "rng_seed R 12345"] by (simp add: t)
  then have a: "int (length (fst (generate_terminal_data R sz g0))) = sz"
    using nn by (simp add: generate_terminal_data_def t py_prefix_length)
  obtain d l c where e: "editor_loop sz ([], 1, 1) = (d, l, c)"
    by (cases "editor_loop sz ([], 1, 1)")
  have "sz \<le> int (length (d @ py_repeat CHR '' '' (sz - int (length d))))"
    by (simp add: py_repeat_def)
  then have b: "int (length (generate_editor_data sz)) = sz"
    using nn by (simp add: generate_editor_data_def e py_prefix_length del: length_append)
  show ?thesis using a b by simp
qed

theorem generators_exact_length_witness:
  "(0::int) \<le> 5 \<and> int (length (fst (generate_terminal_data lcg 5 0))) = 5 \<and>
     int (length (generate_editor_data 5)) = 5 \<and>
     fst (generate_terminal_data lcg 5 0) = CHR 0x1B # ''[0m'' @ [CHR 0x1B] \<and>
     generate_editor_data 5 = ''     ''"
proof -
  have e: "generate_editor_data 5 = ''     ''"
    by (simp add: generate_editor_data_def editor_loop.simps [of 5 "([], 1, 1)"] py_repeat_def
        py_prefix_def py_slice_def py_index_def numeral_eq_Suc)
  have t: "fst (generate_terminal_data lcg 5 0) = CHR 0x1B # ''[0m'' @ [CHR 0x1B]"
    by (simp add: generate_terminal_data_def lcg_def terminal_loop.simps terminal_step_def
        randint_def choice_def escapes_def ESC_def py_prefix_def py_slice_def py_index_def)
  show ?thesis using generators_exact_length [of 5 lcg 0] e t by simp
qed


section \<open>The generators are deterministic\<close>

text \<open>
  Claim C2. The bytes \<open>generate_terminal_data\<close> returns do not depend on the state the
  random generator is in when the call starts (\<open>g1\<close>, \<open>g2\<close>: an earlier call in the same
  run, or another run), because the call reseeds first; the editor generator takes no
  generator state at all. So the pair of buffers \<open>main\<close> builds for a size is the same from
  any state, and generating it again from the state the first generation leaves behind
  gives the same pair.
\<close>

theorem generators_deterministic:
  "fst (generate_terminal_data R sz g1) = fst (generate_terminal_data R sz g2) \<and>
   fst (generate_inputs R sz g1) = fst (generate_inputs R sz g2) \<and>
   (case generate_inputs R sz g1 of (bufs, g') \<Rightarrow> fst (generate_inputs R sz g') = bufs)"
  by (simp add: generate_terminal_data_def generate_inputs_def split: prod.split)


section \<open>Per-frame compression: total size\<close>

lemma div_le_zero_aux: "0 < (fs::int) \<Longrightarrow> a < fs \<Longrightarrow> a div fs \<le> 0"
  by (metis div_pos_pos_trivial linorder_not_less nle_le zdiv_mono1 zero_le_one order_less_le div_by_0 pos_imp_zdiv_neg_iff)

lemma upt_Suc_shift: "[0..<Suc m] = 0 # map Suc [0..<m]"
  by (simp add: upt_conv_Cons map_Suc_upt del: upt_Suc)

lemma per_frame_loop_run:
  assumes fs: "0 < fs" and off: "0 \<le> off"
  shows "per_frame_loop compress data fs off tot vis =
     Some (tot + (\<Sum>k\<leftarrow>[0..<nat ((int (length data) - off + fs - 1) div fs)].
                    4 + int (length (compress (py_slice data (off + int k * fs) (off + int k * fs + fs))))),
           vis @ map (\<lambda>k. (off + int k * fs, py_slice data (off + int k * fs) (off + int k * fs + fs)))
                   [0..<nat ((int (length data) - off + fs - 1) div fs)])"
  using off
proof (induction "nat (int (length data) - off)" arbitrary: off tot vis rule: less_induct)
  case less
  show ?case
  proof (cases "off < int (length data)")
    case False
    then have "int (length data) - off + fs - 1 < fs" by simp
    then have "(int (length data) - off + fs - 1) div fs \<le> 0"
      using fs by (rule div_le_zero_aux [rotated])
    then have m: "nat ((int (length data) - off + fs - 1) div fs) = 0" by simp
    show ?thesis using False by (subst per_frame_loop.simps) (simp add: m)
  next
    case True
    define x where "x = int (length data) - off - 1"
    have x0: "0 \<le> x" using True by (simp add: x_def)
    have xd: "0 \<le> x div fs" using x0 fs by (simp add: pos_imp_zdiv_nonneg_iff)
    have e1: "int (length data) - off + fs - 1 = x + fs" by (simp add: x_def)
    have e2: "int (length data) - (off + fs) + fs - 1 = x" by (simp add: x_def)
    have m: "nat ((int (length data) - off + fs - 1) div fs) = Suc (nat (x div fs))"
      using xd fs by (simp add: e1 nat_add_distrib)
    have m': "nat ((int (length data) - (off + fs) + fs - 1) div fs) = nat (x div fs)"
      by (simp only: e2)
    have sm: "nat (int (length data) - (off + fs)) < nat (int (length data) - off)"
      using True fs by simp
    have o2: "0 \<le> off + fs" using less.prems fs by simp
    note ih = less.hyps [OF sm o2, unfolded m']
    show ?thesis
      apply (subst per_frame_loop.simps)
      apply (simp only: True if_True Let_def ih m upt_Suc_shift)
      apply (simp add: o_def algebra_simps)
      done
  qed
qed


lemma ceil_div: "0 < (fs::int) \<Longrightarrow> \<lceil>(of_int n :: rat) / of_int fs\<rceil> = (n + fs - 1) div fs"
proof -
  assume fs: "0 < fs"
  define q where "q = (n - 1) div fs"
  define r where "r = (n - 1) mod fs"
  have r: "0 \<le> r" "r < fs" using fs by (simp_all add: r_def)
  have n: "n - 1 = fs * q + r" by (simp add: q_def r_def)
  have "- n = fs * (- q - 1) + (fs - r - 1)" using n by (simp add: algebra_simps)
  then have a: "- n div fs = - q - 1"
    using r int_div_pos_eq [of "- n" fs "- q - 1" "fs - r - 1"] by simp
  have "n + fs - 1 = fs * (q + 1) + r" using n by (simp add: algebra_simps)
  then have b: "(n + fs - 1) div fs = q + 1"
    using r int_div_pos_eq [of "n + fs - 1" fs "q + 1" r] by simp
  have "\<lceil>(of_int n :: rat) / of_int fs\<rceil> = - (- n div fs)" by (rule ceiling_divide_eq_div)
  then show ?thesis using a b by simp
qed

lemma py_slice_chunk:
  "0 < fs \<Longrightarrow> py_slice data (int k * fs) (int k * fs + fs) = take (nat fs) (drop (k * nat fs) data)"
proof -
  assume fs: "0 < fs"
  have kn: "nat (int k * fs) = k * nat fs" using fs by (simp add: nat_mult_distrib)
  have kn2: "nat (int k * fs + fs) = k * nat fs + nat fs"
    using fs by (simp add: nat_add_distrib nat_mult_distrib)
  have nn: "\<not> int k * fs < 0" "\<not> int k * fs + fs < 0" using fs by (simp_all add: not_less)
  show ?thesis
    unfolding py_slice_def py_index_def Let_def
    apply (simp only: nn if_False kn kn2)
    apply (cases "k * nat fs \<le> length data")
     apply (simp add: min_def)
    apply (simp add: min_def)
    done
qed

lemma frame_count_nat:
  "0 < fs \<Longrightarrow> nat ((int n + fs - 1) div fs) = (n + nat fs - 1) div nat fs"
proof -
  assume fs: "0 < fs"
  have "int n + fs - 1 = int (n + nat fs - 1)" using fs by (simp add: of_nat_diff)
  moreover have "fs = int (nat fs)" using fs by simp
  ultimately have "(int n + fs - 1) div fs = int ((n + nat fs - 1) div nat fs)"
    by (metis zdiv_int)
  then show ?thesis by simp
qed

lemma concat_chunks:
  "concat (map (\<lambda>k. take n (drop (k * n) xs)) [0..<m]) = take (m * n) xs"
proof (induction m)
  case 0
  show ?case by simp
next
  case (Suc m)
  have "take (Suc m * n) xs = take (m * n + n) xs" by (simp add: add.commute)
  also have "\<dots> = take (m * n) xs @ take n (drop (m * n) xs)" by (rule take_add)
  finally show ?case using Suc by simp
qed

lemma frame_count_covers: "0 < n \<Longrightarrow> len \<le> ((len + n - 1) div n) * (n::nat)"
proof -
  assume n: "0 < n"
  have "len + n - 1 < ((len + n - 1) div n) * n + n"
    using n by (metis dividend_less_div_times mult.commute add.commute)
  then show ?thesis using n by simp
qed

lemma per_frame_loop_chunks:
  assumes fs: "0 < fs"
  shows "per_frame_loop compress data fs 0 0 [] =
     Some ((\<Sum>k\<leftarrow>[0..<(length data + nat fs - 1) div nat fs].
              4 + int (length (compress (take (nat fs) (drop (k * nat fs) data))))),
           map (\<lambda>k. (int k * fs, take (nat fs) (drop (k * nat fs) data)))
             [0..<(length data + nat fs - 1) div nat fs])"
  using per_frame_loop_run [OF fs, of 0 compress data 0 "[]"] frame_count_nat [OF fs, of "length data"]
  by (simp add: py_slice_chunk [OF fs])

lemma per_frame_loop_total:
  assumes fs: "0 < fs"
  shows "map_option fst (per_frame_loop compress data fs 0 0 []) =
     Some (\<Sum>k\<leftarrow>[0..<nat \<lceil>(of_nat (length data) :: rat) / of_int fs\<rceil>].
              4 + int (length (compress (py_slice data (int k * fs) ((int k + 1) * fs)))))"
proof -
  have c: "\<lceil>(of_nat (length data) :: rat) / of_int fs\<rceil> = (int (length data) + fs - 1) div fs"
    using ceil_div [OF fs, of "int (length data)"] by simp
  have e: "\<And>k. (int k + 1) * fs = int k * fs + fs" by (simp add: algebra_simps)
  show ?thesis
    using per_frame_loop_run [OF fs, of 0 compress data 0 "[]"] by (simp add: c e)
qed

text \<open>
  Claim C3, as amended. For a frame size \<open>fs > 0\<close>, \<open>compress_per_frame_zlib\<close> returns, and
  its total is the sum over the \<open>\<lceil>len(data) / fs\<rceil>\<close> chunks \<open>data[k*fs : (k+1)*fs]\<close> of 4 plus
  the length of the compressed chunk. \<open>compress_per_frame_zstd\<close> does the same when
  \<open>HAS_ZSTD\<close> is true; when it is false the function returns \<open>(0, 0)\<close> without reading
  the data or the clock.
\<close>

theorem per_frame_total_size:
  "0 < fs \<Longrightarrow>
     map_option (fst \<circ> fst) (compress_per_frame_zlib L data fs level c) =
       Some (\<Sum>k\<leftarrow>[0..<nat \<lceil>(of_nat (length data) :: rat) / of_int fs\<rceil>].
               4 + int (length (zlib_compress L (py_slice data (int k * fs) ((int k + 1) * fs)) level))) \<and>
     (has_zstd \<longrightarrow>
        map_option (fst \<circ> fst) (compress_per_frame_zstd L has_zstd data fs level c) =
          Some (\<Sum>k\<leftarrow>[0..<nat \<lceil>(of_nat (length data) :: rat) / of_int fs\<rceil>].
               4 + int (length (zstd_compress L level (py_slice data (int k * fs) ((int k + 1) * fs)))))) \<and>
     (\<not> has_zstd \<longrightarrow>
        compress_per_frame_zstd L has_zstd data fs level c = Some ((0, 0), c))"
proof -
  assume fs: "0 < fs"
  obtain start c1 where s: "perf_counter_ns L c = (start, c1)" by (cases "perf_counter_ns L c")
  obtain stop c2 where t: "perf_counter_ns L c1 = (stop, c2)" by (cases "perf_counter_ns L c1")
  have a: "map_option (fst \<circ> fst) (compress_per_frame_zlib L data fs level c) =
      map_option fst (per_frame_loop (\<lambda>chunk. zlib_compress L chunk level) data fs 0 0 [])"
    by (simp add: compress_per_frame_zlib_def s t split: option.split)
  have b: "has_zstd \<Longrightarrow> map_option (fst \<circ> fst) (compress_per_frame_zstd L has_zstd data fs level c) =
      map_option fst (per_frame_loop (zstd_compress L level) data fs 0 0 [])"
    by (simp add: compress_per_frame_zstd_def s t split: option.split)
  show ?thesis
    using a b per_frame_loop_total [OF fs, of "\<lambda>chunk. zlib_compress L chunk level" data]
      per_frame_loop_total [OF fs, of "zstd_compress L level" data]
    by (simp add: compress_per_frame_zstd_def)
qed

theorem per_frame_total_size_witness:
  "(0::int) < 2 \<and>
   compress_per_frame_zlib toy_lib ''abcde'' 2 6 0 = Some ((20, 1000), 2000) \<and>
   map_option (fst \<circ> fst) (compress_per_frame_zlib toy_lib ''abcde'' 2 6 0) =
     Some (\<Sum>k\<leftarrow>[0..<nat \<lceil>(of_nat (length ''abcde'') :: rat) / of_int 2\<rceil>].
        4 + int (length (zlib_compress toy_lib (py_slice ''abcde'' (int k * 2) ((int k + 1) * 2)) 6))) \<and>
   compress_per_frame_zstd toy_lib True ''abcde'' 2 6 0 = Some ((20, 1000), 2000) \<and>
   map_option (fst \<circ> fst) (compress_per_frame_zstd toy_lib True ''abcde'' 2 6 0) =
     Some (\<Sum>k\<leftarrow>[0..<nat \<lceil>(of_nat (length ''abcde'') :: rat) / of_int 2\<rceil>].
        4 + int (length (zstd_compress toy_lib 6 (py_slice ''abcde'' (int k * 2) ((int k + 1) * 2)))))"
proof -
  have a: "compress_per_frame_zlib toy_lib ''abcde'' 2 6 0 = Some ((20, 1000), 2000)"
    by (simp add: compress_per_frame_zlib_def toy_lib_def per_frame_loop.simps py_slice_def
        py_index_def)
  have b: "compress_per_frame_zstd toy_lib True ''abcde'' 2 6 0 = Some ((20, 1000), 2000)"
    by (simp add: compress_per_frame_zstd_def toy_lib_def per_frame_loop.simps py_slice_def
        py_index_def)
  have h: "(0::int) < 2" by simp
  show ?thesis
    using per_frame_total_size [OF h, of toy_lib "''abcde''" 6 0 True] a b by simp
qed

text \<open>
  The claim as stated, for every per-frame function: with \<open>HAS_ZSTD\<close> false, one byte of
  data and a frame size of 1, \<open>compress_per_frame_zstd\<close> returns the total 0, while the
  sum over the single chunk is 4 plus the compressed length, here 6.
\<close>

theorem per_frame_zstd_absent_counterexample:
  "map_option (fst \<circ> fst) (compress_per_frame_zstd toy_lib False ''a'' 1 3 0) = Some 0 \<and>
   (\<Sum>k\<leftarrow>[0..<nat \<lceil>(of_nat (length ''a'') :: rat) / of_int 1\<rceil>].
        4 + int (length (zstd_compress toy_lib 3 (py_slice ''a'' (int k * 1) ((int k + 1) * 1))))) = 6"
  by (simp add: compress_per_frame_zstd_def toy_lib_def py_slice_def py_index_def)


section \<open>A frame as large as the buffer\<close>

lemma py_slice_all: "py_slice xs 0 (int (length xs)) = xs"
  by (simp add: py_slice_def py_index_def)

lemma per_frame_loop_one_frame:
  "data \<noteq> [] \<Longrightarrow>
   per_frame_loop compress data (int (length data)) 0 0 [] =
     Some (4 + int (length (compress data)), [(0, data)])"
  apply (subst per_frame_loop.simps)
  apply (simp add: py_slice_all Let_def)
  apply (subst per_frame_loop.simps)
  apply simp
  done

lemma strategies_zlib_frame:
  "(Zlib_frame frame level \<in> set (strategies hz sz)) =
     (frame \<in> {512, 1024, 2048} \<and> level \<in> {1, 6} \<and> \<not> frame > sz)"
proof -
  have a: "Zlib_frame frame level \<notin> set (map Zlib_streaming [1, 6, 9])" by auto
  have b: "(Zlib_frame frame level \<in> set (concat (map (\<lambda>fr. if fr > sz then [] else map (Zlib_frame fr) [1, 6])
               [512, 1024, 2048]))) = (frame \<in> {512, 1024, 2048} \<and> level \<in> {1, 6} \<and> \<not> frame > sz)"
    by auto
  have c: "Zlib_frame frame level \<notin> set (if sz \<le> 16384 then [Lzma_streaming] else [])" by simp
  have d: "Zlib_frame frame level \<notin> set (if hz
      then map Zstd_streaming [1, 3, 9] @
           concat (map (\<lambda>fr. if fr > sz then [] else [Zstd_frame fr 3]) [1024, 2048])
      else [])" by auto
  show ?thesis
    unfolding strategies_def set_append Un_iff using a b c d by blast
qed

lemma strategies_zstd_frame:
  "(Zstd_frame frame level \<in> set (strategies hz sz)) =
     (hz \<and> frame \<in> {1024, 2048} \<and> level = 3 \<and> \<not> frame > sz)"
proof -
  have a: "Zstd_frame frame level \<notin> set (map Zlib_streaming [1, 6, 9])" by auto
  have b: "Zstd_frame frame level \<notin> set (concat (map (\<lambda>fr. if fr > sz then [] else map (Zlib_frame fr) [1, 6])
               [512, 1024, 2048]))"
    by auto
  have c: "Zstd_frame frame level \<notin> set (if sz \<le> 16384 then [Lzma_streaming] else [])" by simp
  have d: "(Zstd_frame frame level \<in> set (if hz
      then map Zstd_streaming [1, 3, 9] @
           concat (map (\<lambda>fr. if fr > sz then [] else [Zstd_frame fr 3]) [1024, 2048])
      else [])) = (hz \<and> frame \<in> {1024, 2048} \<and> level = 3 \<and> \<not> frame > sz)" by auto
  show ?thesis
    unfolding strategies_def set_append Un_iff using a b c d by blast
qed

text \<open>
  Claim C4. For a non-empty buffer, \<open>compress_per_frame_zlib\<close> with a frame size equal to
  the length of the buffer returns the size \<open>compress_streaming_zlib\<close> returns plus one
  4-byte header. In the rows of \<open>main\<close>, a per-frame row with frame size \<open>frame\<close> is run for
  a buffer of the requested size \<open>sz\<close> exactly when \<open>frame\<close> is one of the sizes the loop
  lists and \<open>frame > sz\<close> is false: a frame size equal to the buffer size is not skipped.
\<close>

theorem frame_equal_to_buffer:
  "(data \<noteq> [] \<longrightarrow>
      map_option (fst \<circ> fst) (compress_per_frame_zlib L data (int (length data)) level c) =
        Some (fst (fst (compress_streaming_zlib L data level c')) + 4)) \<and>
   ((Zlib_frame frame lv \<in> set (strategies hz sz)) =
      (frame \<in> {512, 1024, 2048} \<and> lv \<in> {1, 6} \<and> \<not> frame > sz)) \<and>
   ((Zstd_frame frame lv \<in> set (strategies hz sz)) =
      (hz \<and> frame \<in> {1024, 2048} \<and> lv = 3 \<and> \<not> frame > sz))"
proof -
  have a: "map_option (fst \<circ> fst) (compress_per_frame_zlib L data (int (length data)) level c) =
        Some (fst (fst (compress_streaming_zlib L data level c')) + 4)" if "data \<noteq> []"
    using per_frame_loop_one_frame [OF that, of "\<lambda>chunk. zlib_compress L chunk level"]
    by (simp add: compress_per_frame_zlib_def compress_streaming_zlib_def split: prod.split)
  show ?thesis
    by (intro conjI impI a strategies_zlib_frame strategies_zstd_frame)
qed


theorem frame_equal_to_buffer_witness:
  "''abc'' \<noteq> [] \<and>
   compress_per_frame_zlib toy_lib ''abc'' (int (length ''abc'')) 6 0 = Some ((8, 1000), 2000) \<and>
   compress_streaming_zlib toy_lib ''abc'' 6 0 = ((4, 1000), 2000) \<and>
   Zlib_frame 1024 6 \<in> set (strategies False 1024) \<and>
   Zlib_frame 2048 6 \<notin> set (strategies False 1024) \<and>
   Zstd_frame 1024 3 \<in> set (strategies True 1024)"
proof -
  have a: "compress_streaming_zlib toy_lib ''abc'' 6 0 = ((4, 1000), 2000)"
    by (simp add: compress_streaming_zlib_def toy_lib_def)
  have b: "compress_per_frame_zlib toy_lib ''abc'' (int (length ''abc'')) 6 0 = Some ((8, 1000), 2000)"
    by (simp add: compress_per_frame_zlib_def toy_lib_def per_frame_loop.simps py_slice_def
        py_index_def)
  have c: "Zlib_frame 1024 6 \<in> set (strategies False 1024)"
    using frame_equal_to_buffer [of "''abc''" toy_lib 6 0 0 1024 6 False 1024] by simp
  have d: "Zlib_frame 2048 6 \<notin> set (strategies False 1024)"
    using frame_equal_to_buffer [of "''abc''" toy_lib 6 0 0 2048 6 False 1024] by simp
  have e: "Zstd_frame 1024 3 \<in> set (strategies True 1024)"
    using frame_equal_to_buffer [of "''abc''" toy_lib 6 0 0 1024 3 True 1024] by simp
  show ?thesis using a b c d e by simp
qed


section \<open>The frames partition the buffer\<close>

lemma chunk_interval:
  assumes n: "0 < (n::nat)" and i: "i < len"
  shows "(k * n \<le> i \<and> i < k * n + min n (len - k * n)) = (k = i div n)"
proof
  assume a: "k * n \<le> i \<and> i < k * n + min n (len - k * n)"
  from a have "i < k * n + min n (len - k * n)" by (rule conjunct2)
  also have "\<dots> \<le> k * n + n" by simp
  finally have "i < n * Suc k" by (simp add: mult.commute)
  moreover from a have "n * k \<le> i" by (simp add: mult.commute)
  ultimately have "n * k \<le> i" "i < n * Suc k" by simp_all
  then have "i div n = k" by (rule div_nat_eqI)
  then show "k = i div n" by simp
next
  assume k: "k = i div n"
  have lo: "k * n \<le> i" by (simp add: k)
  have hi: "i < k * n + n" using dividend_less_div_times [OF n, of i] by (simp add: k add.commute)
  have "i < k * n + (len - k * n)" using i lo by simp
  then show "k * n \<le> i \<and> i < k * n + min n (len - k * n)" using lo hi by simp
qed

lemma frame_count_start:
  assumes n: "0 < (n::nat)" and k: "k < (len + n - 1) div n"
  shows "k * n < len"
proof -
  have "Suc k \<le> (len + n - 1) div n" using k by simp
  then have "Suc k * n \<le> ((len + n - 1) div n) * n" by (rule mult_le_mono1)
  also have "\<dots> \<le> len + n - 1" by simp
  finally show ?thesis using n by simp
qed

lemma frame_count_index:
  assumes n: "0 < (n::nat)" and i: "i < len"
  shows "i div n < (len + n - 1) div n"
proof -
  have "len \<le> ((len + n - 1) div n) * n" using n by (rule frame_count_covers)
  then have "i < ((len + n - 1) div n) * n" using i by simp
  then show ?thesis using n by (simp add: less_mult_imp_div_less)
qed

text \<open>
  Claim C10. For a frame size \<open>fs > 0\<close> the per-frame loop returns, and the chunks it
  visited partition the input: chunk \<open>k\<close> is \<open>data[k*fs : k*fs + fs\<close>] at offset \<open>k*fs\<close> and
  is not empty, the chunks concatenate back to \<open>data\<close>, every byte position of \<open>data\<close> lies in
  the range of exactly one chunk, and the chunk holds the byte of \<open>data\<close> at that position.
\<close>

theorem per_frame_chunks_partition:
  "0 < fs \<Longrightarrow>
     (\<exists>tot visited.
        per_frame_loop compress data fs 0 0 [] = Some (tot, visited) \<and>
        concat (map snd visited) = data \<and>
        (\<forall>k<length visited.
           visited ! k = (int k * fs, py_slice data (int k * fs) (int k * fs + fs)) \<and>
           snd (visited ! k) \<noteq> []) \<and>
        (\<forall>i<length data.
           \<exists>!k. k < length visited \<and> fst (visited ! k) \<le> int i \<and>
                int i < fst (visited ! k) + int (length (snd (visited ! k)))) \<and>
        (\<forall>i<length data. \<forall>k<length visited.
           fst (visited ! k) \<le> int i \<and>
           int i < fst (visited ! k) + int (length (snd (visited ! k))) \<longrightarrow>
           snd (visited ! k) ! nat (int i - fst (visited ! k)) = data ! i))"
proof -
  assume fs: "0 < fs"
  define n where "n = nat fs"
  define m where "m = (length data + n - 1) div n"
  define visited where
    "visited = map (\<lambda>k. (int k * fs, take n (drop (k * n) data))) [0..<m]"
  define tot where
    "tot = (\<Sum>k\<leftarrow>[0..<m]. 4 + int (length (compress (take n (drop (k * n) data)))))"
  have n: "0 < n" and fsn: "fs = int n" using fs by (simp_all add: n_def)
  have run: "per_frame_loop compress data fs 0 0 [] = Some (tot, visited)"
    using per_frame_loop_chunks [OF fs, of compress data]
    by (simp add: tot_def visited_def m_def n_def)
  have len: "length visited = m" by (simp add: visited_def)
  have nth: "visited ! k = (int (k * n), take n (drop (k * n) data))" if "k < m" for k
    using that by (simp add: visited_def fsn)
  have cat: "concat (map snd visited) = data"
  proof -
    have "concat (map snd visited) = take (m * n) data"
      using concat_chunks [of n data m] by (simp add: visited_def o_def)
    moreover have "length data \<le> m * n"
      unfolding m_def using n by (rule frame_count_covers)
    ultimately show ?thesis by simp
  qed
  have shape: "visited ! k = (int k * fs, py_slice data (int k * fs) (int k * fs + fs)) \<and>
      snd (visited ! k) \<noteq> []" if "k < length visited" for k
  proof -
    have km: "k < m" using that len by simp
    have "k * n < length data" using n km unfolding m_def by (rule frame_count_start)
    then have "take n (drop (k * n) data) \<noteq> []" using n by simp
    moreover have "py_slice data (int k * fs) (int k * fs + fs) = take n (drop (k * n) data)"
      using py_slice_chunk [OF fs, of data k] by (simp add: n_def)
    moreover have "int (k * n) = int k * fs" by (simp add: fsn)
    ultimately show ?thesis
      using nth [OF km] by (simp del: of_nat_mult)
  qed
  have inside: "(fst (visited ! k) \<le> int i \<and>
        int i < fst (visited ! k) + int (length (snd (visited ! k)))) = (k = i div n)"
    if "k < length visited" "i < length data" for k i
  proof -
    have km: "k < m" using that len by simp
    have "(fst (visited ! k) \<le> int i \<and>
        int i < fst (visited ! k) + int (length (snd (visited ! k)))) =
        (k * n \<le> i \<and> i < k * n + min n (length data - k * n))"
    proof -
      have f: "fst (visited ! k) = int (k * n)" by (simp add: nth [OF km])
      have l: "length (snd (visited ! k)) = min n (length data - k * n)"
        by (simp add: nth [OF km] min.commute)
      have "int (k * n) + int (min n (length data - k * n)) =
          int (k * n + min n (length data - k * n))" by (rule of_nat_add [symmetric])
      then show ?thesis by (simp only: f l of_nat_le_iff of_nat_less_iff)
    qed
    then show ?thesis using chunk_interval [OF n that(2), of k] by simp
  qed
  have unique: "\<exists>!k. k < length visited \<and> fst (visited ! k) \<le> int i \<and>
      int i < fst (visited ! k) + int (length (snd (visited ! k)))" if "i < length data" for i
  proof (rule ex1I [of _ "i div n"])
    have "i div n < length visited"
      using frame_count_index [OF n that] by (simp add: len m_def)
    then show "i div n < length visited \<and> fst (visited ! (i div n)) \<le> int i \<and>
        int i < fst (visited ! (i div n)) + int (length (snd (visited ! (i div n))))"
      using inside [of "i div n" i] that by simp
  next
    fix k
    assume "k < length visited \<and> fst (visited ! k) \<le> int i \<and>
      int i < fst (visited ! k) + int (length (snd (visited ! k)))"
    then show "k = i div n" using inside [of k i] that by simp
  qed
  have bytes: "snd (visited ! k) ! nat (int i - fst (visited ! k)) = data ! i"
    if "i < length data" "k < length visited" "fst (visited ! k) \<le> int i \<and>
      int i < fst (visited ! k) + int (length (snd (visited ! k)))" for i k
  proof -
    have km: "k < m" using that len by simp
    have k: "k = i div n" using inside [OF that(2) that(1)] that(3) by simp
    have lo: "k * n \<le> i" by (simp add: k)
    have "i < n + k * n" using dividend_less_div_times [OF n, of i] by (simp add: k)
    then have hi: "i - k * n < n" using lo by linarith
    have "nat (int i - fst (visited ! k)) = i - k * n"
      using lo by (simp add: nth [OF km] nat_diff_distrib' del: of_nat_mult)
    then show ?thesis using lo hi that(1) by (simp add: nth [OF km])
  qed
  show ?thesis
    using run cat shape unique bytes by blast
qed

theorem per_frame_chunks_partition_witness:
  "(0::int) < 2 \<and>
   per_frame_loop (\<lambda>d. CHR ''z'' # d) ''abcde'' 2 0 0 [] =
     Some (20, [(0, ''ab''), (2, ''cd''), (4, ''e'')]) \<and>
   concat (map snd [(0::int, ''ab''), (2, ''cd''), (4, ''e'')]) = ''abcde'' \<and>
   (\<exists>tot visited. per_frame_loop (\<lambda>d. CHR ''z'' # d) ''abcde'' 2 0 0 [] = Some (tot, visited) \<and>
      concat (map snd visited) = ''abcde'')"
proof -
  have h: "(0::int) < 2" by simp
  have a: "per_frame_loop (\<lambda>d. CHR ''z'' # d) ''abcde'' 2 0 0 [] =
     Some (20, [(0, ''ab''), (2, ''cd''), (4, ''e'')])"
    by (simp add: per_frame_loop.simps py_slice_def py_index_def)
  have "\<exists>tot visited. per_frame_loop (\<lambda>d. CHR ''z'' # d) ''abcde'' 2 0 0 [] = Some (tot, visited) \<and>
      concat (map snd visited) = ''abcde''"
    using per_frame_chunks_partition [OF h, of "\<lambda>d. CHR ''z'' # d" "''abcde''"] by blast
  then show ?thesis using a by simp
qed


section \<open>The cursor position of the editor generator\<close>

lemma editor_reach_loop:
  "editor_reach sz (fst s) (fst (snd s)) (snd (snd s)) \<Longrightarrow>
   editor_reach sz (fst (editor_loop sz s)) (fst (snd (editor_loop sz s)))
     (snd (snd (editor_loop sz s)))"
proof (induction sz s rule: editor_loop.induct)
  case (1 sz s)
  show ?case
  proof (cases "int (length (fst s)) + 20 < sz")
    case True
    have "editor_step (fst s, fst (snd s), snd (snd s)) =
        (fst (editor_step s), fst (snd (editor_step s)), snd (snd (editor_step s)))"
      by simp
    with 1(2) True have "editor_reach sz (fst (editor_step s)) (fst (snd (editor_step s)))
        (snd (snd (editor_step s)))"
      by (rule editor_reach.pass)
    then show ?thesis using 1(1) [OF True] True by (simp add: editor_loop.simps [of sz s])
  next
    case False
    then show ?thesis using 1(2) by (simp add: editor_loop.simps [of sz s])
  qed
qed

lemma editor_reach_bounds:
  "editor_reach sz data line col \<Longrightarrow> 1 \<le> line \<and> line \<le> 50 \<and> 1 \<le> col \<and> col \<le> 80"
proof (induction rule: editor_reach.induct)
  case start
  show ?case by simp
next
  case (pass data line col data' line' col')
  have "0 \<le> line mod 50" "line mod 50 < 50" "0 \<le> col mod 80" "col mod 80 < 80" by simp_all
  moreover have "line' = line mod 50 + 1" "col' = col mod 80 + 1"
    using pass.hyps(3) by (simp_all add: editor_step_def)
  ultimately show ?case by linarith
qed

text \<open>
  Claim C9. The state in which the loop of \<open>generate_editor_data\<close> ends is one of the loop's
  states, and in every state of the loop \<open>1 \<le> line \<le> 50\<close> and \<open>1 \<le> col \<le> 80\<close>; a pass from
  it appends the escape sequence for \<open>(line, col)\<close> and the content, and moves \<open>line\<close> to
  \<open>line + 1\<close>, or to 1 after 50, and \<open>col\<close> to \<open>col + 1\<close>, or to 1 after 80.
\<close>

theorem editor_cursor_bounded:
  "(case editor_loop sz ([], 1, 1) of (data, line, col) \<Rightarrow> editor_reach sz data line col) \<and>
   (editor_reach sz data line col \<longrightarrow>
      1 \<le> line \<and> line \<le> 50 \<and> 1 \<le> col \<and> col \<le> 80 \<and>
      editor_step (data, line, col) =
        (data @ cursor_seq line col @ content,
         if line = 50 then 1 else line + 1, if col = 80 then 1 else col + 1))"
proof -
  have "editor_reach sz (fst (editor_loop sz ([], 1, 1))) (fst (snd (editor_loop sz ([], 1, 1))))
     (snd (snd (editor_loop sz ([], 1, 1))))"
    by (rule editor_reach_loop) (simp add: editor_reach.start)
  then have a: "case editor_loop sz ([], 1, 1) of (data, line, col) \<Rightarrow> editor_reach sz data line col"
    by (simp add: case_prod_beta)
  have b: "1 \<le> line \<and> line \<le> 50 \<and> 1 \<le> col \<and> col \<le> 80 \<and>
      editor_step (data, line, col) =
        (data @ cursor_seq line col @ content,
         if line = 50 then 1 else line + 1, if col = 80 then 1 else col + 1)"
    if r: "editor_reach sz data line col"
  proof -
    have bd: "1 \<le> line" "line \<le> 50" "1 \<le> col" "col \<le> 80"
      using editor_reach_bounds [OF r] by simp_all
    have "line mod 50 + 1 = (if line = 50 then 1 else line + 1)"
      using bd by (cases "line = 50") simp_all
    moreover have "col mod 80 + 1 = (if col = 80 then 1 else col + 1)"
      using bd by (cases "col = 80") simp_all
    ultimately show ?thesis using bd by (simp add: editor_step_def)
  qed
  show ?thesis using a b by blast
qed

lemma cursor_seq_1_1: "cursor_seq 1 1 = ESC # ''[1;1H''"
  by (simp add: cursor_seq_def str_int_def)

lemma cursor_seq_50_80: "cursor_seq 50 80 = ESC # ''[50;80H''"
  by (simp add: cursor_seq_def str_int_def)

theorem editor_cursor_bounded_witness:
  "editor_reach 60 (ESC # ''[1;1Hconst foo = 123;'') 2 2 \<and>
   editor_step ([], 1, 1) = (ESC # ''[1;1Hconst foo = 123;'', 2, 2) \<and>
   editor_step (ESC # ''[1;1Hconst foo = 123;'', 2, 2) =
     (ESC # ''[1;1Hconst foo = 123;'' @ cursor_seq 2 2 @ content, 3, 3) \<and>
   editor_step ([], 50, 80) = (ESC # ''[50;80Hconst foo = 123;'', 1, 1)"
proof -
  have s1: "editor_step ([], 1, 1) = (ESC # ''[1;1Hconst foo = 123;'', 2, 2)"
    by (simp add: editor_step_def cursor_seq_1_1 content_def)
  have r: "editor_reach 60 (ESC # ''[1;1Hconst foo = 123;'') 2 2"
    by (rule editor_reach.pass [OF editor_reach.start _ s1]) simp
  have w: "editor_step ([], 50, 80) = (ESC # ''[50;80Hconst foo = 123;'', 1, 1)"
    by (simp add: editor_step_def cursor_seq_50_80 content_def)
  show ?thesis
    using editor_cursor_bounded [of 60 "ESC # ''[1;1Hconst foo = 123;''" 2 2] r s1 w by simp
qed


section \<open>Rows of the benchmark matrix\<close>

lemma main_cells_mem:
  "((sz, nm, s) \<in> set (main_cells hz)) =
     (sz \<in> set test_sizes \<and> nm \<in> {''Terminal (mixed)'', ''Editor (cursor)''} \<and>
      s \<in> set (strategies hz sz))"
  by (auto simp: main_cells_def)

lemma strategies_lzma: "(Lzma_streaming \<in> set (strategies hz sz)) = (sz \<le> 16384)"
proof -
  have a: "Lzma_streaming \<notin> set (map Zlib_streaming [1, 6, 9])" by auto
  have b: "Lzma_streaming \<notin> set (concat (map (\<lambda>fr. if fr > sz then [] else map (Zlib_frame fr) [1, 6])
               [512, 1024, 2048]))"
    by auto
  have c: "(Lzma_streaming \<in> set (if sz \<le> 16384 then [Lzma_streaming] else [])) = (sz \<le> 16384)"
    by simp
  have d: "Lzma_streaming \<notin> set (if hz
      then map Zstd_streaming [1, 3, 9] @
           concat (map (\<lambda>fr. if fr > sz then [] else [Zstd_frame fr 3]) [1024, 2048])
      else [])" by auto
  show ?thesis
    unfolding strategies_def set_append Un_iff using a b c d by blast
qed

text \<open>
  Claim C8. For every requested size \<open>sz\<close>, the rows of a buffer hold the lzma row exactly
  when \<open>sz \<le> 16384\<close>; over a whole run, lzma rows exist for the sizes 1024, 4096 and 16384
  and both buffers, and for nothing else (none for 65536). A row that is run is a call of
  \<open>compress_streaming_lzma\<close>, which returns.
\<close>

theorem lzma_only_small_sizes:
  "(Lzma_streaming \<in> set (strategies hz sz)) = (sz \<le> 16384) \<and>
   ((sz, nm, Lzma_streaming) \<in> set (main_cells hz)) =
     (sz \<in> {1024, 4096, 16384} \<and> nm \<in> {''Terminal (mixed)'', ''Editor (cursor)''}) \<and>
   run_strategy L hz data Lzma_streaming c = Some (compress_streaming_lzma L data c)"
proof -
  have "(sz \<in> set test_sizes \<and> sz \<le> 16384) = (sz \<in> {1024, 4096, 16384})"
    by (auto simp: test_sizes_def)
  then show ?thesis
    using main_cells_mem [of sz nm Lzma_streaming hz] strategies_lzma [of hz sz] by auto
qed

lemma strategies_no_zstd: "s \<in> set (strategies False sz) \<Longrightarrow> \<not> is_zstd s"
proof -
  assume s: "s \<in> set (strategies False sz)"
  have a: "s \<in> set (map Zlib_streaming [1, 6, 9]) \<Longrightarrow> \<not> is_zstd s"
    by (auto simp: is_zstd_def)
  have b: "s \<in> set (concat (map (\<lambda>fr. if fr > sz then [] else map (Zlib_frame fr) [1, 6])
               [512, 1024, 2048])) \<Longrightarrow> \<not> is_zstd s"
    by (auto simp: is_zstd_def split: if_splits)
  have c: "s \<in> set (if sz \<le> 16384 then [Lzma_streaming] else []) \<Longrightarrow> \<not> is_zstd s"
    by (auto simp: is_zstd_def split: if_splits)
  show ?thesis
    using s a b c unfolding strategies_def set_append Un_iff by auto
qed

text \<open>
  Claim C7, as amended. When \<open>import zstandard\<close> raises \<open>ImportError\<close>, loading the module
  does not fail: \<open>HAS_ZSTD\<close> is false and two \<open>print\<close> calls are made, the note and the
  install hint, the hint ending in a newline of its own, so three lines reach the output
  (the last one empty). With \<open>HAS_ZSTD\<close> false no row of any buffer, and no row of the run,
  is a zstd row.
\<close>

theorem zstd_absent_degrades:
  "load_module (Some ImportError) =
     Inr (False, [''Note: zstd not available, skipping zstd tests'',
                  ''Install with: pip install zstandard'' @ [CHR 0x0A]]) \<and>
   line_count (stdout_text [''Note: zstd not available, skipping zstd tests'',
                  ''Install with: pip install zstandard'' @ [CHR 0x0A]]) = 3 \<and>
   load_module None = Inr (True, []) \<and>
   filter is_zstd (strategies False sz) = [] \<and>
   filter (\<lambda>cell. is_zstd (snd (snd cell))) (main_cells False) = []"
proof -
  have a: "filter is_zstd (strategies False sz) = []"
    using strategies_no_zstd [of _ sz] by (simp add: filter_empty_conv)
  have b: "filter (\<lambda>cell. is_zstd (snd (snd cell))) (main_cells False) = []"
    unfolding filter_empty_conv
  proof
    fix cell
    assume m: "cell \<in> set (main_cells False)"
    obtain z nm s where c: "cell = (z, nm, s)" by (cases cell)
    have "s \<in> set (strategies False z)" using m main_cells_mem [of z nm s False] by (simp add: c)
    then show "\<not> is_zstd (snd (snd cell))" using strategies_no_zstd by (simp add: c)
  qed
  have c: "line_count (stdout_text [''Note: zstd not available, skipping zstd tests'',
                  ''Install with: pip install zstandard'' @ [CHR 0x0A]]) = 3"
    by (simp add: line_count_def stdout_text_def)
  show ?thesis using a b c by (simp add: load_module_def)
qed

text \<open>
  The claim as stated says a one-line notice: when the import fails the module makes two
  \<open>print\<close> calls and writes three lines.
\<close>

theorem zstd_notice_counterexample:
  "(case load_module (Some ImportError) of
      Inl e \<Rightarrow> 0
    | Inr (has_zstd, prints) \<Rightarrow> line_count (stdout_text prints)) = 3 \<and>
   (case load_module (Some ImportError) of
      Inl e \<Rightarrow> 0
    | Inr (has_zstd, prints) \<Rightarrow> length prints) = 2"
  by (simp add: load_module_def line_count_def stdout_text_def)




text \<open>
  Claim C5 does not hold of the code. \<open>frame_sizes\<close> lists 256, 512, 1024, 2048 and 4096,
  but \<open>main\<close> never reads it: over a whole run the zlib per-frame rows use exactly the frame
  sizes 512, 1024 and 2048, the zstd per-frame rows exactly 1024 and 2048. Frame size 256 is
  not run on the 1024-byte buffer and frame size 4096 not on the 4096-byte buffer, though
  neither exceeds it.
\<close>

theorem frame_sizes_not_all_exercised:
  "set frame_sizes = {256, 512, 1024, 2048, 4096} \<and>
   {f. \<exists>sz nm lv. (sz, nm, Zlib_frame f lv) \<in> set (main_cells hz)} = {512, 1024, 2048} \<and>
   {f. \<exists>sz nm lv. (sz, nm, Zstd_frame f lv) \<in> set (main_cells True)} = {1024, 2048} \<and>
   (1024, ''Terminal (mixed)'', Zlib_frame 256 6) \<notin> set (main_cells hz) \<and>
   (4096, ''Terminal (mixed)'', Zlib_frame 4096 6) \<notin> set (main_cells hz)"
proof -
  have a: "set frame_sizes = {256, 512, 1024, 2048, 4096}" by (simp add: frame_sizes_def)
  have t: "(65536::int) \<in> set test_sizes" by (simp add: test_sizes_def)
  have b: "{f. \<exists>sz nm lv. (sz, nm, Zlib_frame f lv) \<in> set (main_cells hz)} = {512, 1024, 2048}"
  proof (rule set_eqI)
    fix f
    show "(f \<in> {f. \<exists>sz nm lv. (sz, nm, Zlib_frame f lv) \<in> set (main_cells hz)}) =
        (f \<in> {512, 1024, 2048})"
    proof
      assume "f \<in> {f. \<exists>sz nm lv. (sz, nm, Zlib_frame f lv) \<in> set (main_cells hz)}"
      then show "f \<in> {512, 1024, 2048}"
        by (auto simp only: mem_Collect_eq main_cells_mem strategies_zlib_frame)
    next
      assume f: "f \<in> {512, 1024, 2048}"
      then have "\<not> f > 65536" by auto
      then have "(65536, ''Terminal (mixed)'', Zlib_frame f 6) \<in> set (main_cells hz)"
        using f t by (simp only: main_cells_mem strategies_zlib_frame) simp
      then show "f \<in> {f. \<exists>sz nm lv. (sz, nm, Zlib_frame f lv) \<in> set (main_cells hz)}"
        by blast
    qed
  qed
  have c: "{f. \<exists>sz nm lv. (sz, nm, Zstd_frame f lv) \<in> set (main_cells True)} = {1024, 2048}"
  proof (rule set_eqI)
    fix f
    show "(f \<in> {f. \<exists>sz nm lv. (sz, nm, Zstd_frame f lv) \<in> set (main_cells True)}) =
        (f \<in> {1024, 2048})"
    proof
      assume "f \<in> {f. \<exists>sz nm lv. (sz, nm, Zstd_frame f lv) \<in> set (main_cells True)}"
      then show "f \<in> {1024, 2048}"
        by (auto simp only: mem_Collect_eq main_cells_mem strategies_zstd_frame)
    next
      assume f: "f \<in> {1024, 2048}"
      then have "\<not> f > 65536" by auto
      then have "(65536, ''Terminal (mixed)'', Zstd_frame f 3) \<in> set (main_cells True)"
        using f t by (simp only: main_cells_mem strategies_zstd_frame) simp
      then show "f \<in> {f. \<exists>sz nm lv. (sz, nm, Zstd_frame f lv) \<in> set (main_cells True)}"
        by blast
    qed
  qed
  have d: "(1024, ''Terminal (mixed)'', Zlib_frame 256 6) \<notin> set (main_cells hz)"
    by (simp only: main_cells_mem strategies_zlib_frame) simp
  have e: "(4096, ''Terminal (mixed)'', Zlib_frame 4096 6) \<notin> set (main_cells hz)"
    by (simp only: main_cells_mem strategies_zlib_frame) simp
  show ?thesis using a b c d e by simp
qed

end
